theory Spec2Isabelle
  imports Complex_Main "HOL-Library.Word"
begin

section \<open>prgi: progress indicators for terminals\<close>

text \<open>
  A shallow embedding of \<^verbatim>\<open>prgi.c\<close> and \<^verbatim>\<open>prgi.h\<close>: the escape-aware string
  utilities, the per-thread counter with its fast path \<^verbatim>\<open>prgi_update\<close>, the slow path
  \<^verbatim>\<open>prgi_update__\<close>, the line printer \<^verbatim>\<open>prgi_puts\<close>, the bar renderer and the
  time and rate formatters.

  Conventions of the model.
  \<^item> A C string is the list of its bytes before the terminating NUL; a pointer into
    it is the remaining suffix, so \<^verbatim>\<open>p - s\<close> is a difference of lengths.
  \<^item> \<^verbatim>\<open>long int\<close> is a 64-bit word (LP64); its comparisons are signed, written with
    \<open>sint\<close>. Signed overflow, undefined in C, wraps around in the model.
  \<^item> \<^verbatim>\<open>int\<close> is a mathematical integer: the values held in \<^verbatim>\<open>int\<close> variables here
    (terminal widths, line counts, bar lengths, seconds up to seven days) stay far
    from the 32-bit limits. A conversion from floating point to \<^verbatim>\<open>int\<close> is the one
    place where the limits matter, and it checks them.
  \<^item> \<^verbatim>\<open>float\<close> and \<^verbatim>\<open>double\<close> values are the type \<open>fp\<close>: a finite value is the real
    number it denotes, next to the two infinities and NaN. Rounding to 24 or 53 bits
    and the sign of zero are not modelled (zero is \<open>+0\<close>).
  \<^item> State is passed explicitly. The thread-local \<^verbatim>\<open>prgi_thread_\<close> is a
    \<open>thread_state\<close>; the process-wide \<^verbatim>\<open>prgi\<close>, \<^verbatim>\<open>global\<close> and \<^verbatim>\<open>bar\<close> and the
    bytes written to \<^verbatim>\<open>prgi.output\<close> are one \<open>state\<close>. The clock and the terminal
    width reported by \<^verbatim>\<open>ioctl\<close> are inputs of the call that reads them.
\<close>

subsection \<open>Constants\<close>

definition MAXLINELEN :: int where "MAXLINELEN = 256"




definition ESC :: char where "ESC = CHR 0x1B"


subsection \<open>Escape-aware string utilities\<close>

text \<open>The three byte ranges of a CSI sequence, as \<^verbatim>\<open>esc_skip\<close> tests them.\<close>

definition is_param :: "char \<Rightarrow> bool" where
  "is_param c = (0x30 \<le> (of_char c :: nat) \<and> (of_char c :: nat) \<le> 0x3F)"

definition is_interm :: "char \<Rightarrow> bool" where
  "is_interm c = (0x20 \<le> (of_char c :: nat) \<and> (of_char c :: nat) \<le> 0x2F)"

definition is_final :: "char \<Rightarrow> bool" where
  "is_final c = (0x40 \<le> (of_char c :: nat) \<and> (of_char c :: nat) \<le> 0x7E)"

text \<open>\<^verbatim>\<open>if(0x40 <= *p && *p <= 0x7E) ++p;\<close>\<close>

fun final_byte :: "string \<Rightarrow> string" where
  "final_byte [] = []"
| "final_byte (c # p) = (if is_final c then p else c # p)"

text \<open>
  The body of \<^verbatim>\<open>if(*p == '[')\<close> after its \<^verbatim>\<open>++p\<close>: the two \<^verbatim>\<open>while\<close> loops over
  parameter and intermediate bytes, then the optional final byte.
\<close>

definition csi_body :: "string \<Rightarrow> string" where
  "csi_body p = final_byte (dropWhile is_interm (dropWhile is_param p))"

lemma length_final_byte: "length (final_byte p) \<le> length p"
  by (cases p) auto

lemma length_csi_body: "length (csi_body p) \<le> length p"
proof -
  have "length (csi_body p) \<le> length (dropWhile is_interm (dropWhile is_param p))"
    unfolding csi_body_def by (rule length_final_byte)
  also have "\<dots> \<le> length (dropWhile is_param p)" by (rule length_dropWhile_le)
  also have "\<dots> \<le> length p" by (rule length_dropWhile_le)
  finally show ?thesis .
qed

text \<open>
  \<^verbatim>\<open>esc_skip\<close>: the outer loop \<^verbatim>\<open>while(*p == '\e')\<close>. At the end of the string
  \<^verbatim>\<open>*p\<close> is NUL, which is neither the escape character nor \<^verbatim>\<open>'['\<close>.
\<close>

function esc_skip :: "string \<Rightarrow> string" where
  "esc_skip [] = []"
| "esc_skip (c # p) =
     (if c = ESC then
        (case p of
           [] \<Rightarrow> esc_skip p
         | d # q \<Rightarrow> if d = CHR ''['' then esc_skip (csi_body q) else esc_skip p)
      else c # p)"
  by pat_completeness auto
termination
proof (relation "measure length")
  show "wf (measure length)" by simp
next
  fix c :: char and p :: string
  show "(p, c # p) \<in> measure length" by simp
next
  fix c :: char and p :: string and d :: char and q :: string
  assume "p = d # q"
  then show "(csi_body q, c # p) \<in> measure length"
    using length_csi_body [of q] by simp
next
  fix c :: char and p :: string and d :: char and q :: string
  show "(p, c # p) \<in> measure length" by simp
qed

lemma length_esc_skip: "length (esc_skip p) \<le> length p"
proof (induction p rule: esc_skip.induct)
  case 1
  show ?case by simp
next
  case (2 c p)
  show ?case
  proof (cases "c = ESC")
    case False
    then show ?thesis by simp
  next
    case True
    show ?thesis
    proof (cases p)
      case Nil
      with True show ?thesis by simp
    next
      case (Cons d q)
      show ?thesis
      proof (cases "d = CHR ''[''")
        case T2: True
        have "length (esc_skip (csi_body q)) \<le> length (csi_body q)"
          using "2.IH"(2) [OF True Cons T2] .
        also have "\<dots> \<le> length q" by (rule length_csi_body)
        finally show ?thesis using True Cons T2 by simp
      next
        case F2: False
        have "length (esc_skip p) \<le> length p"
          using "2.IH"(3) [OF True Cons F2] .
        then show ?thesis using True Cons F2 by simp
      qed
    qed
  qed
qed

text \<open>
  \<^verbatim>\<open>esc_strlen\<close>: the loop \<^verbatim>\<open>for(;;) { p = esc_skip(p); if(*p == '\0') return n;
  ++n; ++p; }\<close> with its two variables.
\<close>

function esc_strlen_loop :: "string \<Rightarrow> int \<Rightarrow> int" where
  "esc_strlen_loop p n =
     (let p' = esc_skip p in
      if p' = [] then n else esc_strlen_loop (tl p') (n + 1))"
  by pat_completeness auto
termination
proof (relation "measure (\<lambda>(p, n). length p)")
  show "wf (measure (\<lambda>(p, n). length p))" by simp
next
  fix p :: string and n :: int and p' :: string
  assume "p' = esc_skip p" and "p' \<noteq> []"
  then have "length (tl p') < length (esc_skip p)" by (cases p') simp_all
  then show "((tl p', n + 1), (p, n)) \<in> measure (\<lambda>(p, n). length p)"
    using length_esc_skip [of p] by simp
qed

definition esc_strlen :: "string \<Rightarrow> int" where
  "esc_strlen p = esc_strlen_loop p 0"

text \<open>
  \<^verbatim>\<open>esc_rawlen\<close>: the loop \<^verbatim>\<open>for(;;) { p = esc_skip(p); if(n == l || *p == '\0')
  return p - s; ++n; ++p; }\<close>.
\<close>

function esc_rawlen_loop :: "string \<Rightarrow> string \<Rightarrow> int \<Rightarrow> int \<Rightarrow> int" where
  "esc_rawlen_loop s p n l =
     (let p' = esc_skip p in
      if n = l \<or> p' = [] then int (length s) - int (length p')
      else esc_rawlen_loop s (tl p') (n + 1) l)"
  by pat_completeness auto
termination
proof (relation "measure (\<lambda>(s, p, n, l). length p)")
  show "wf (measure (\<lambda>(s, p, n, l). length p))" by simp
next
  fix s p :: string and n l :: int and p' :: string
  assume "p' = esc_skip p" and "\<not> (n = l \<or> p' = [])"
  then have "length (tl p') < length (esc_skip p)" by (cases p') simp_all
  then show "((s, tl p', n + 1, l), (s, p, n, l)) \<in> measure (\<lambda>(s, p, n, l). length p)"
    using length_esc_skip [of p] by simp
qed

definition esc_rawlen :: "string \<Rightarrow> int \<Rightarrow> int" where
  "esc_rawlen s l = esc_rawlen_loop s s 0 l"

declare esc_strlen_loop.simps [simp del]
declare esc_rawlen_loop.simps [simp del]
declare esc_skip.simps(2) [simp del]

text \<open>The number of bytes \<^verbatim>\<open>esc_skip\<close> moves its pointer forward.\<close>

definition skip_len :: "string \<Rightarrow> nat" where
  "skip_len p = length p - length (esc_skip p)"

subsection \<open>Floating point and machine integers\<close>

type_synonym long = "64 word"

datatype fp = Fin real | PInf | NInf | NaN

fun isfinite :: "fp \<Rightarrow> bool" where
  "isfinite (Fin x) = True"
| "isfinite PInf = False"
| "isfinite NInf = False"
| "isfinite NaN = False"

text \<open>The value of a finite \<open>fp\<close>; read only after \<open>isfinite\<close> has been tested.\<close>

fun fp_val :: "fp \<Rightarrow> real" where
  "fp_val (Fin x) = x"
| "fp_val PInf = 0"
| "fp_val NInf = 0"
| "fp_val NaN = 0"

fun fneg :: "fp \<Rightarrow> fp" where
  "fneg (Fin x) = Fin (- x)"
| "fneg PInf = NInf"
| "fneg NInf = PInf"
| "fneg NaN = NaN"

fun fadd :: "fp \<Rightarrow> fp \<Rightarrow> fp" where
  "fadd (Fin x) (Fin y) = Fin (x + y)"
| "fadd NaN b = NaN"
| "fadd a NaN = NaN"
| "fadd PInf NInf = NaN"
| "fadd NInf PInf = NaN"
| "fadd PInf b = PInf"
| "fadd NInf b = NInf"
| "fadd a PInf = PInf"
| "fadd a NInf = NInf"

definition fsub :: "fp \<Rightarrow> fp \<Rightarrow> fp" where
  "fsub a b = fadd a (fneg b)"

definition inf_of_sign :: "bool \<Rightarrow> fp" where
  "inf_of_sign negative = (if negative then NInf else PInf)"

fun fmul :: "fp \<Rightarrow> fp \<Rightarrow> fp" where
  "fmul (Fin x) (Fin y) = Fin (x * y)"
| "fmul NaN b = NaN"
| "fmul a NaN = NaN"
| "fmul (Fin x) PInf = (if x = 0 then NaN else inf_of_sign (x < 0))"
| "fmul (Fin x) NInf = (if x = 0 then NaN else inf_of_sign (0 < x))"
| "fmul PInf (Fin y) = (if y = 0 then NaN else inf_of_sign (y < 0))"
| "fmul NInf (Fin y) = (if y = 0 then NaN else inf_of_sign (0 < y))"
| "fmul PInf PInf = PInf"
| "fmul PInf NInf = NInf"
| "fmul NInf PInf = NInf"
| "fmul NInf NInf = PInf"

text \<open>Division: a finite nonzero value over zero is an infinity, zero over zero is NaN.\<close>

fun fdiv :: "fp \<Rightarrow> fp \<Rightarrow> fp" where
  "fdiv (Fin x) (Fin y) =
     (if y = 0 then (if x = 0 then NaN else inf_of_sign (x < 0)) else Fin (x / y))"
| "fdiv NaN b = NaN"
| "fdiv a NaN = NaN"
| "fdiv (Fin x) PInf = Fin 0"
| "fdiv (Fin x) NInf = Fin 0"
| "fdiv PInf (Fin y) = inf_of_sign (y < 0)"
| "fdiv NInf (Fin y) = inf_of_sign (0 \<le> y)"
| "fdiv PInf PInf = NaN"
| "fdiv PInf NInf = NaN"
| "fdiv NInf PInf = NaN"
| "fdiv NInf NInf = NaN"

text \<open>The comparisons \<^verbatim>\<open><\<close> and \<^verbatim>\<open>>\<close>: false whenever an operand is NaN.\<close>

fun fless :: "fp \<Rightarrow> fp \<Rightarrow> bool" where
  "fless (Fin x) (Fin y) = (x < y)"
| "fless NaN b = False"
| "fless a NaN = False"
| "fless a NInf = False"
| "fless PInf b = False"
| "fless NInf b = True"
| "fless a PInf = True"

definition fgreater :: "fp \<Rightarrow> fp \<Rightarrow> bool" where
  "fgreater a b = fless b a"

definition LONG_MIN :: int where "LONG_MIN = - (2 ^ 63)"

definition LONG_MAX :: int where "LONG_MAX = 2 ^ 63 - 1"

definition INT_MIN :: int where "INT_MIN = - (2 ^ 31)"

definition INT_MAX :: int where "INT_MAX = 2 ^ 31 - 1"

text \<open>Conversion to an integer type truncates towards zero.\<close>

definition trunc :: "real \<Rightarrow> int" where
  "trunc x = (if 0 \<le> x then \<lfloor>x\<rfloor> else - \<lfloor>- x\<rfloor>)"

definition l2f :: "long \<Rightarrow> fp" where
  "l2f w = Fin (real_of_int (sint w))"


text \<open>
  C leaves the conversion of NaN, of an infinity and of a value out of the target's
  range undefined. The model takes what x86-64 does there (\<^verbatim>\<open>cvttss2si\<close>): the most
  negative integer.
\<close>

fun f2l :: "fp \<Rightarrow> long" where
  "f2l (Fin x) =
     (if LONG_MIN \<le> trunc x \<and> trunc x \<le> LONG_MAX then word_of_int (trunc x)
      else word_of_int LONG_MIN)"
| "f2l PInf = word_of_int LONG_MIN"
| "f2l NInf = word_of_int LONG_MIN"
| "f2l NaN = word_of_int LONG_MIN"

fun f2i :: "fp \<Rightarrow> int" where
  "f2i (Fin x) = (if INT_MIN \<le> trunc x \<and> trunc x \<le> INT_MAX then trunc x else INT_MIN)"
| "f2i PInf = INT_MIN"
| "f2i NInf = INT_MIN"
| "f2i NaN = INT_MIN"

text \<open>C's \<^verbatim>\<open>/\<close> and \<^verbatim>\<open>%\<close> on \<^verbatim>\<open>int\<close> truncate towards zero.\<close>

definition c_div :: "int \<Rightarrow> int \<Rightarrow> int" where
  "c_div a b = sgn a * sgn b * (\<bar>a\<bar> div \<bar>b\<bar>)"

definition c_mod :: "int \<Rightarrow> int \<Rightarrow> int" where
  "c_mod a b = a - b * c_div a b"


text \<open>
  \<^verbatim>\<open>divmod\<close> (\<open>divmod_c\<close> here) assigns \<^verbatim>\<open>(*n)/d\<close> to \<^verbatim>\<open>*n\<close> and returns \<^verbatim>\<open>(*n)%d\<close>: here the pair
  of the new \<^verbatim>\<open>*n\<close> and the returned remainder.
\<close>

definition divmod_c :: "int \<Rightarrow> int \<Rightarrow> int \<times> int" where
  "divmod_c n d = (c_div n d, c_mod n d)"

subsection \<open>The conversions of \<^verbatim>\<open>printf\<close> that the formatters use\<close>

text \<open>
  The C library's \<^verbatim>\<open>snprintf\<close> is modelled by the string each conversion
  produces: \<^verbatim>\<open>%d\<close>, \<^verbatim>\<open>%02d\<close>, \<^verbatim>\<open>%.*f\<close>, \<^verbatim>\<open>%.2E\<close> and \<^verbatim>\<open>%.2G\<close>. Decimal digits are
  rounded to nearest, ties to even, from the exact value. The two scientific
  conversions are called with values of at least 1 only, and \<open>dec_exp\<close> finds the
  decimal exponent of such a value.
\<close>

definition digit_char :: "nat \<Rightarrow> char" where
  "digit_char d = char_of (48 + d)"

function dec_nat :: "nat \<Rightarrow> string" where
  "dec_nat n = (if n < 10 then [digit_char n] else dec_nat (n div 10) @ [digit_char (n mod 10)])"
  by pat_completeness auto
termination
  by (relation "measure id") auto

declare dec_nat.simps [simp del]

definition printf_d :: "int \<Rightarrow> string" where
  "printf_d i = (if i < 0 then CHR ''-'' # dec_nat (nat (- i)) else dec_nat (nat i))"

definition pad_zero :: "nat \<Rightarrow> string \<Rightarrow> string" where
  "pad_zero w s = replicate (w - length s) CHR ''0'' @ s"

definition printf_02d :: "int \<Rightarrow> string" where
  "printf_02d i =
     (if i < 0 then CHR ''-'' # pad_zero 1 (dec_nat (nat (- i))) else pad_zero 2 (dec_nat (nat i)))"

definition round_half_even :: "real \<Rightarrow> int" where
  "round_half_even x =
     (let f = \<lfloor>x\<rfloor> in
      if x - of_int f < 1 / 2 then f
      else if 1 / 2 < x - of_int f then f + 1
      else if even f then f else f + 1)"

text \<open>The digits of \<open>m / 10 ^ prec\<close> with \<open>prec\<close> places after the point.\<close>

definition digits_frac :: "nat \<Rightarrow> int \<Rightarrow> string" where
  "digits_frac prec m =
     dec_nat (nat (m div 10 ^ prec)) @
     (if prec = 0 then [] else CHR ''.'' # pad_zero prec (dec_nat (nat (m mod 10 ^ prec))))"

definition printf_f :: "nat \<Rightarrow> real \<Rightarrow> string" where
  "printf_f prec x =
     (if x < 0 then [CHR ''-''] else []) @ digits_frac prec (round_half_even (\<bar>x\<bar> * 10 ^ prec))"

function dec_exp :: "real \<Rightarrow> nat" where
  "dec_exp x = (if x < 10 then 0 else Suc (dec_exp (x / 10)))"
  by pat_completeness auto
termination
proof (relation "measure (\<lambda>x. nat \<lfloor>x\<rfloor>)")
  show "wf (measure (\<lambda>x. nat \<lfloor>x\<rfloor>))" by simp
next
  fix x :: real
  assume "\<not> x < 10"
  then have "x / 10 + 1 \<le> x" by simp
  then have "\<lfloor>x / 10\<rfloor> + 1 \<le> \<lfloor>x\<rfloor>" by linarith
  moreover have "0 < \<lfloor>x\<rfloor>" using \<open>\<not> x < 10\<close> by linarith
  ultimately show "(x / 10, x) \<in> measure (\<lambda>x. nat \<lfloor>x\<rfloor>)" by simp
qed

declare dec_exp.simps [simp del]

text \<open>
  Exponent and digits of the scientific notation with \<open>prec\<close> places: when rounding
  carries into a new digit (9.996 at two places), the exponent grows by one.
\<close>

definition sci_parts :: "nat \<Rightarrow> real \<Rightarrow> nat \<times> int" where
  "sci_parts prec x =
     (let e = dec_exp x; m = round_half_even (x * 10 ^ prec / 10 ^ e) in
      if 10 ^ Suc prec \<le> m then (Suc e, m div 10) else (e, m))"

definition printf_E :: "nat \<Rightarrow> real \<Rightarrow> string" where
  "printf_E prec x =
     (case sci_parts prec x of
        (e, m) \<Rightarrow> digits_frac prec m @ ''E+'' @ pad_zero 2 (dec_nat e))"

text \<open>\<^verbatim>\<open>%G\<close> removes trailing zeros of the fraction, and the point with them.\<close>

definition strip_zeros :: "string \<Rightarrow> string" where
  "strip_zeros s =
     (if CHR ''.'' \<in> set s then
        (case dropWhile (\<lambda>c. c = CHR ''0'') (rev s) of
           [] \<Rightarrow> []
         | c # r \<Rightarrow> if c = CHR ''.'' then rev r else rev (c # r))
      else s)"

definition printf_G :: "nat \<Rightarrow> real \<Rightarrow> string" where
  "printf_G p x =
     (case sci_parts (p - 1) x of
        (e, m) \<Rightarrow>
          if e < p then strip_zeros (printf_f (p - 1 - e) x)
          else strip_zeros (digits_frac (p - 1) m) @ ''E+'' @ pad_zero 2 (dec_nat e))"

text \<open>
  \<^verbatim>\<open>sprn\<close>: \<^verbatim>\<open>snprintf\<close> into a buffer of \<open>sz\<close> bytes keeps at most \<open>sz - 1\<close>
  bytes of the formatted text.
\<close>

definition sprn :: "nat \<Rightarrow> string \<Rightarrow> string" where
  "sprn sz s = take (sz - 1) s"

subsection \<open>State\<close>

record timespec =
  tv_sec :: long
  tv_nsec :: long

text \<open>
  \<^verbatim>\<open>struct prgi_thread_state_\<close>, the thread-local \<^verbatim>\<open>prgi_thread_\<close> (\<^verbatim>\<open>thread\<close> in
  \<^verbatim>\<open>prgi.c\<close>): the field \<^verbatim>\<open>thread.count\<close> is \<open>t_count\<close>, and so on.
\<close>

record thread_state =
  t_total :: long
  t_count :: long
  t_last_count :: long
  t_mark :: long
  t_last_time :: fp

datatype stream = Stdout | Stderr | Other nat

text \<open>
  The process-wide variables: \<^verbatim>\<open>prgi.x\<close> is \<open>p_x\<close>, \<^verbatim>\<open>global.x\<close> is \<open>g_x\<close>,
  \<^verbatim>\<open>bar.x\<close> is \<open>bar_x\<close> (\<^verbatim>\<open>bar.fill[0]\<close> and \<^verbatim>\<open>bar.fill[1]\<close> are \<open>bar_fill0\<close> and
  \<open>bar_fill1\<close>). \<open>g_lock\<close> tells whether the mutex is held. \<open>g_printed_lines\<close> is a
  natural number: the code only resets it, increments it, and decrements it when it
  is not zero. \<open>written\<close> collects the bytes written to \<^verbatim>\<open>prgi.output\<close>.
\<close>

record state =
  p_output :: "stream option"
  p_update :: fp
  p_lock_on_update :: bool
  p_width :: int
  p_progress :: fp
  p_elapsed :: fp
  p_remaining :: fp
  p_rate :: fp
  p_mean_rate :: fp
  g_start :: timespec
  g_lock :: bool
  g_total :: long
  g_count :: long
  g_last_count :: long
  g_last_time :: fp
  g_width :: int
  g_printed_lines :: nat
  g_expand_count :: int
  bar_fill0 :: char
  bar_fill1 :: char
  bar_txt :: string
  bar_expand :: bool
  written :: string

subsection \<open>Clock and locking\<close>

text \<open>
  \<^verbatim>\<open>timef\<close>: \<^verbatim>\<open>(t.tv_sec - start->tv_sec) + 1E-9f * (t.tv_nsec - start->tv_nsec)\<close>,
  where \<open>t\<close> is the reading of the monotonic clock.
\<close>

definition timef :: "timespec \<Rightarrow> timespec \<Rightarrow> fp" where
  "timef start t =
     fadd (l2f (tv_sec t - tv_sec start))
          (fmul (Fin (1 / 10 ^ 9)) (l2f (tv_nsec t - tv_nsec start)))"

definition prgi_lock :: "state \<Rightarrow> state" where
  "prgi_lock st = st\<lparr>g_lock := True\<rparr>"

definition prgi_unlock :: "state \<Rightarrow> state" where
  "prgi_unlock st = st\<lparr>g_lock := False\<rparr>"

subsection \<open>Basic output functions\<close>

definition valid_terminal :: "state \<Rightarrow> bool" where
  "valid_terminal st = (p_output st \<noteq> None \<and> 3 \<le> p_width st)"

text \<open>
  The loop \<^verbatim>\<open>while(global.printed_lines) { fputs("\e[A\e[K", prgi.output);
  --global.printed_lines; }\<close>, by the number of lines left.
\<close>

fun clear_up :: "nat \<Rightarrow> string" where
  "clear_up 0 = []"
| "clear_up (Suc n) = (ESC # ''[A'' @ ESC # ''[K'') @ clear_up n"

definition prgi_clear :: "state \<Rightarrow> state" where
  "prgi_clear st =
     (if g_printed_lines st = 0 then st
      else if \<not> valid_terminal st then st\<lparr>g_printed_lines := 0\<rparr>
      else st\<lparr>written := written st @ (CHR 0x0D # ESC # ''[K'')
                   @ clear_up (g_printed_lines st - 1),
              g_printed_lines := 0\<rparr>)"

text \<open>
  \<^verbatim>\<open>%.*s\<close> prints at most as many bytes of the string as the precision says; a
  negative precision counts as none given.
\<close>

definition printf_prec_s :: "int \<Rightarrow> string \<Rightarrow> string" where
  "printf_prec_s prec s = (if prec < 0 then s else take (nat prec) s)"

text \<open>
  What one call of \<^verbatim>\<open>prgi_puts\<close> prints after the line separator: the line, whole
  or truncated, and the sequence that parks the cursor.
\<close>

definition puts_line :: "string \<Rightarrow> state \<Rightarrow> string" where
  "puts_line s st =
     (if esc_strlen s \<le> g_width st then s
      else printf_prec_s (esc_rawlen s (g_width st - 3)) s @ ''>>>'' @ ESC # ''[0m'')
     @ ESC # ''['' @ printf_d (p_width st) @ ''G''"

definition prgi_puts :: "string \<Rightarrow> state \<Rightarrow> state" where
  "prgi_puts s st =
     (if \<not> valid_terminal st then st
      else st\<lparr>written := written st
                 @ (if g_printed_lines st \<noteq> 0 then [CHR 0x0A] else [])
                 @ puts_line s st,
              g_printed_lines := g_printed_lines st + 1\<rparr>)"

subsection \<open>Initialization\<close>

definition prgi_init_thread :: "long \<Rightarrow> state \<Rightarrow> thread_state \<times> state" where
  "prgi_init_thread tot st =
     (\<lparr>t_total = tot, t_count = 0, t_last_count = 0, t_mark = 0, t_last_time = Fin 0\<rparr>,
      prgi_unlock ((prgi_lock st)\<lparr>g_total := g_total st + tot\<rparr>))"

text \<open>\<open>clk\<close> is the clock reading that \<^verbatim>\<open>gettime(&global.start)\<close> stores.\<close>

definition prgi_init :: "long \<Rightarrow> timespec \<Rightarrow> state \<Rightarrow> thread_state \<times> state" where
  "prgi_init tot clk st =
     prgi_init_thread tot
       (st\<lparr>p_output := (if p_output st = None then Some Stdout else p_output st),
           p_progress := Fin 0,
           p_elapsed := Fin 0,
           p_remaining := NaN,
           p_rate := NaN,
           p_mean_rate := NaN,
           p_width := - 1,
           g_start := clk,
           g_total := 0,
           g_count := 0,
           g_last_count := 0,
           g_last_time := Fin 0,
           g_width := - 1,
           g_printed_lines := 0,
           g_expand_count := 0\<rparr>)"

subsection \<open>The slow path \<^verbatim>\<open>prgi_update__\<close> and the fast path \<^verbatim>\<open>prgi_update\<close>\<close>

text \<open>
  \<^verbatim>\<open>prgi_update__\<close> is \<open>prgi_update_slow\<close> here (an Isabelle name cannot end in an
  underscore). \<open>clk\<close> is the clock reading of \<^verbatim>\<open>timef\<close>, \<open>tw\<close> the value of
  \<^verbatim>\<open>termwidth(prgi.output)\<close>. The result is the returned flag, the thread's state and
  the process-wide state.

  The compound assignment \<^verbatim>\<open>thread.mark += e\<close> with a \<^verbatim>\<open>float\<close> \<open>e\<close> converts the
  mark to \<^verbatim>\<open>float\<close>, adds, and converts the sum back to \<^verbatim>\<open>long\<close>.
\<close>

definition prgi_update_slow ::
  "timespec \<Rightarrow> int \<Rightarrow> thread_state \<Rightarrow> state \<Rightarrow> bool \<times> thread_state \<times> state" where
  "prgi_update_slow clk tw th st =
     (let thread_delta = t_count th - t_last_count th;
          now = timef (g_start st) clk;
          st = prgi_lock st;
          mark = f2l (fadd (l2f (t_mark th))
                   (fdiv (fmul (p_update st) (l2f thread_delta)) (fsub now (t_last_time th))));
          mark = (if sint (t_count th) < sint (t_total th) \<and> sint (t_total th) < sint mark
                  then t_total th else mark);
          th = th\<lparr>t_mark := mark, t_last_count := t_count th, t_last_time := now\<rparr>;
          st = st\<lparr>g_count := g_count st + thread_delta\<rparr>;
          global_dt = fsub now (g_last_time st);
          ready = fgreater global_dt (fmul (Fin (8 / 10)) (p_update st))
      in
        if \<not> (ready \<or> g_count st = thread_delta \<or> t_count th = t_total th)
        then (False, th, prgi_unlock st)
        else
          let st = st\<lparr>p_progress := fdiv (l2f (g_count st)) (l2f (g_total st)),
                      p_elapsed := now,
                      p_mean_rate := fdiv (l2f (g_count st)) now\<rparr>;
              st = (if ready
                    then st\<lparr>p_rate := fdiv (l2f (g_count st - g_last_count st)) global_dt\<rparr>
                    else st);
              st = st\<lparr>p_remaining := fdiv (l2f (g_total st - g_count st)) (p_rate st)\<rparr>;
              st = st\<lparr>p_width := tw\<rparr>;
              st = st\<lparr>g_width := (if MAXLINELEN + 2 \<le> p_width st then MAXLINELEN
                                   else p_width st - 2)\<rparr>;
              st = st\<lparr>g_last_count := g_count st, g_last_time := now, g_expand_count := 0\<rparr>;
              st = prgi_clear st;
              st = (if \<not> p_lock_on_update st then prgi_unlock st else st)
          in (True, th, st))"

text \<open>
  \<^verbatim>\<open>return (prgi_thread_.count += inc) >= prgi_thread_.mark && prgi_update__();\<close>
\<close>

definition prgi_update ::
  "timespec \<Rightarrow> int \<Rightarrow> long \<Rightarrow> thread_state \<Rightarrow> state \<Rightarrow> bool \<times> thread_state \<times> state" where
  "prgi_update clk tw inc th st =
     (let th = th\<lparr>t_count := t_count th + inc\<rparr> in
      if sint (t_mark th) \<le> sint (t_count th) then prgi_update_slow clk tw th st
      else (False, th, st))"

subsection \<open>The progress bar\<close>






subsection \<open>Formatters\<close>

definition timehms :: "nat \<Rightarrow> fp \<Rightarrow> string" where
  "timehms sz t =
     (if \<not> isfinite t \<or> fless t (Fin 0) then sprn sz ''?''
      else if fgreater t (Fin (7 * 24 * 60 * 60)) then sprn sz (printf_E 2 (fp_val t) @ ''s'')
      else
        let n = f2i t in
        if n < 60 then sprn sz (printf_d n @ ''s'')
        else
          let (n, r) = divmod_c n 60 in
          if n < 60 then sprn sz (printf_d n @ ''m'' @ printf_02d r @ ''s'')
          else
            let (n, r) = divmod_c n 60 in
            if n < 24 then sprn sz (printf_d n @ ''h'' @ printf_02d r @ ''m'')
            else
              let (n, r) = divmod_c n 24 in
              sprn sz (printf_d n @ ''d'' @ printf_d r @ ''02h''))"

definition prgi_remaining :: "state \<Rightarrow> string" where
  "prgi_remaining st = timehms 32 (p_remaining st)"

definition prgi_elapsed :: "state \<Rightarrow> string" where
  "prgi_elapsed st = timehms 32 (p_elapsed st)"

text \<open>\<^verbatim>\<open>return x < 10 ? 2 : x < 100;\<close>\<close>

definition dec3 :: "real \<Rightarrow> nat" where
  "dec3 x = (if x < 10 then 2 else if x < 100 then 1 else 0)"

text \<open>The table \<^verbatim>\<open>pw\<close> of \<^verbatim>\<open>sipref\<close>; its last entry has the prefix \<^verbatim>\<open>NULL\<close>.\<close>

definition pw :: "(real \<times> string option) list" where
  "pw = [(10 ^ 3, Some ''K''), (10 ^ 6, Some ''M''), (10 ^ 9, Some ''G''),
         (10 ^ 12, Some ''T''), (10 ^ 15, Some ''P''), (10 ^ 18, Some ''E''),
         (10 ^ 21, Some ''Z''), (10 ^ 24, Some ''Y''), (10 ^ 27, Some ''R''),
         (10 ^ 30, Some ''Q''), (0, None)]"

text \<open>
  The loop \<^verbatim>\<open>for(i = 0; pw[i+1].p != NULL; ++i)\<close> of \<^verbatim>\<open>sipref\<close>, on the part of the
  table from \<^verbatim>\<open>pw[i]\<close> on: its head is \<^verbatim>\<open>pw[i]\<close>, the next entry \<^verbatim>\<open>pw[i+1]\<close>. Leaving
  the loop, the function prints with \<^verbatim>\<open>%.2G\<close>.
\<close>

fun sipref_loop :: "nat \<Rightarrow> real \<Rightarrow> (real \<times> string option) list \<Rightarrow> string" where
  "sipref_loop sz x ((v, p) # (v', Some p') # rest) =
     (if x < v' then
        sprn sz (printf_f (dec3 (x / v)) (x / v) @ (case p of Some pre \<Rightarrow> pre | None \<Rightarrow> []))
      else sipref_loop sz x ((v', Some p') # rest))"
| "sipref_loop sz x ((v, p) # (v', None) # rest) = sprn sz (printf_G 2 x)"
| "sipref_loop sz x [e] = sprn sz (printf_G 2 x)"
| "sipref_loop sz x [] = sprn sz (printf_G 2 x)"

definition sipref :: "nat \<Rightarrow> fp \<Rightarrow> string" where
  "sipref sz x =
     (if \<not> isfinite x \<or> fless x (Fin 0) then sprn sz ''?''
      else if fless x (Fin 1000) then sprn sz (printf_f (dec3 (fp_val x)) (fp_val x))
      else sipref_loop sz (fp_val x) pw)"

definition prgi_rate :: "state \<Rightarrow> string" where
  "prgi_rate st = sipref 32 (p_rate st)"

definition prgi_mean_rate :: "state \<Rightarrow> string" where
  "prgi_mean_rate st = sipref 32 (p_mean_rate st)"

section \<open>Properties of the string utilities\<close>

text \<open>
  How \<^verbatim>\<open>esc_skip\<close> behaves on a prefix of its argument: cutting the string after
  \<open>k\<close> bytes cuts the result of the skip accordingly. The same holds for each of its
  steps.
\<close>

lemma dropWhile_take_cut:
  "dropWhile P (take m q) = take (m - (length q - length (dropWhile P q))) (dropWhile P q)"
proof (induction q arbitrary: m)
  case Nil
  show ?case by simp
next
  case (Cons x q)
  show ?case
  proof (cases m)
    case 0
    then show ?thesis by simp
  next
    case (Suc m')
    show ?thesis
    proof (cases "P x")
      case True
      have "length (dropWhile P q) \<le> length q" by (rule length_dropWhile_le)
      then show ?thesis using Suc True Cons.IH [of m'] by (simp add: Suc_diff_le)
    next
      case False
      then show ?thesis using Suc by simp
    qed
  qed
qed

lemma final_byte_take_cut:
  "final_byte (take m q) = take (m - (length q - length (final_byte q))) (final_byte q)"
proof (cases q)
  case Nil
  then show ?thesis by simp
next
  case (Cons x q')
  then show ?thesis by (cases m) auto
qed

lemma csi_body_take_cut:
  "csi_body (take m q) = take (m - (length q - length (csi_body q))) (csi_body q)"
proof -
  let ?q1 = "dropWhile is_param q"
  let ?q2 = "dropWhile is_interm ?q1"
  let ?q3 = "final_byte ?q2"
  have l1: "length ?q1 \<le> length q" by (rule length_dropWhile_le)
  have l2: "length ?q2 \<le> length ?q1" by (rule length_dropWhile_le)
  have l3: "length ?q3 \<le> length ?q2" by (rule length_final_byte)
  have "csi_body (take m q) =
      take (m - (length q - length ?q1) - (length ?q1 - length ?q2) - (length ?q2 - length ?q3)) ?q3"
    unfolding csi_body_def
    by (simp only: dropWhile_take_cut [of is_param m q]
        dropWhile_take_cut [of is_interm _ ?q1] final_byte_take_cut [of _ ?q2])
  moreover have "m - (length q - length ?q1) - (length ?q1 - length ?q2) - (length ?q2 - length ?q3)
      = m - (length q - length ?q3)"
    using l1 l2 l3 by arith
  ultimately show ?thesis by (simp add: csi_body_def)
qed

lemma esc_skip_take_cut:
  "esc_skip (take k p) = take (k - skip_len p) (esc_skip p)"
proof (induction p arbitrary: k rule: esc_skip.induct)
  case 1
  show ?case by simp
next
  case (2 c p)
  show ?case
  proof (cases k)
    case 0
    then show ?thesis by simp
  next
    case (Suc k1)
    show ?thesis
    proof (cases "c = ESC")
      case False
      then show ?thesis using Suc by (simp add: skip_len_def esc_skip.simps(2))
    next
      case True
      show ?thesis
      proof (cases p)
        case Nil
        with True Suc show ?thesis by (simp add: skip_len_def esc_skip.simps(2))
      next
        case (Cons d q)
        show ?thesis
        proof (cases "d = CHR ''[''")
          case F2: False
          have le: "length (esc_skip p) \<le> length p" by (rule length_esc_skip)
          have "esc_skip (take k1 p) = take (k1 - skip_len p) (esc_skip p)"
            using "2.IH"(3) [OF True Cons F2] .
          moreover have "esc_skip (take k (c # p)) = esc_skip (take k1 p)"
          proof (cases k1)
            case 0
            then show ?thesis using Suc True by (simp add: esc_skip.simps(2))
          next
            case (Suc k2)
            then show ?thesis using \<open>k = Suc k1\<close> True Cons F2 by (simp add: esc_skip.simps(2))
          qed
          moreover have "esc_skip (c # p) = esc_skip p"
            using True Cons F2 by (simp add: esc_skip.simps(2))
          moreover have "k - skip_len (c # p) = k1 - skip_len p"
            using Suc le \<open>esc_skip (c # p) = esc_skip p\<close> by (simp add: skip_len_def Suc_diff_le)
          ultimately show ?thesis by simp
        next
          case T2: True
          have le1: "length (esc_skip (csi_body q)) \<le> length (csi_body q)" by (rule length_esc_skip)
          have le2: "length (csi_body q) \<le> length q" by (rule length_csi_body)
          have eq: "esc_skip (c # p) = esc_skip (csi_body q)"
            using True Cons T2 by (simp add: esc_skip.simps(2))
          have sk: "2 \<le> skip_len (c # p)"
            using le1 le2 Cons eq by (simp add: skip_len_def)
          show ?thesis
          proof (cases k1)
            case 0
            then show ?thesis using Suc True sk by (simp add: esc_skip.simps(2))
          next
            case (Suc k2)
            have "esc_skip (take k (c # p)) = esc_skip (csi_body (take k2 q))"
              using \<open>k = Suc k1\<close> Suc True Cons T2 by (simp add: esc_skip.simps(2))
            also have "\<dots> = esc_skip (take (k2 - (length q - length (csi_body q))) (csi_body q))"
              by (simp only: csi_body_take_cut)
            also have "\<dots> = take (k2 - (length q - length (csi_body q)) - skip_len (csi_body q))
                (esc_skip (csi_body q))"
              using "2.IH"(2) [OF True Cons T2] .
            also have "k2 - (length q - length (csi_body q)) - skip_len (csi_body q)
                = k - skip_len (c # p)"
              using le1 le2 \<open>k = Suc k1\<close> Suc Cons eq by (simp add: skip_len_def)
            finally show ?thesis using eq by simp
          qed
        qed
      qed
    qed
  qed
qed



lemma skip_len_le: "skip_len p \<le> length p"
  by (simp add: skip_len_def)

lemma drop_by_length: "r = drop k p \<Longrightarrow> r = drop (length p - length r) p"
  by (cases "k \<le> length p") auto

lemma final_byte_suffix: "\<exists>k. final_byte p = drop k p"
proof (cases p)
  case Nil
  then show ?thesis by simp
next
  case (Cons c q)
  show ?thesis
  proof (cases "is_final c")
    case True
    with Cons have "final_byte p = drop 1 p" by simp
    then show ?thesis by blast
  next
    case False
    with Cons have "final_byte p = drop 0 p" by simp
    then show ?thesis by blast
  qed
qed

lemma csi_body_suffix: "\<exists>k. csi_body q = drop k q"
proof -
  obtain k3 where "csi_body q = drop k3 (dropWhile is_interm (dropWhile is_param q))"
    unfolding csi_body_def using final_byte_suffix by blast
  then have "csi_body q = drop (k3 + length (takeWhile is_interm (dropWhile is_param q))
      + length (takeWhile is_param q)) q"
    by (simp add: dropWhile_eq_drop add.commute add.left_commute)
  then show ?thesis by blast
qed

lemma esc_skip_suffix: "\<exists>k. esc_skip p = drop k p"
proof (induction p rule: esc_skip.induct)
  case 1
  show ?case by simp
next
  case (2 c p)
  show ?case
  proof (cases "c = ESC")
    case False
    then have "esc_skip (c # p) = drop 0 (c # p)" by (simp add: esc_skip.simps(2))
    then show ?thesis by blast
  next
    case True
    show ?thesis
    proof (cases p)
      case Nil
      with True have "esc_skip (c # p) = drop 1 (c # p)" by (simp add: esc_skip.simps(2))
      then show ?thesis by blast
    next
      case (Cons d q)
      show ?thesis
      proof (cases "d = CHR ''[''")
        case F2: False
        obtain k where "esc_skip p = drop k p"
          using "2.IH"(3) [OF True Cons F2] by blast
        then have "esc_skip (c # p) = drop (Suc k) (c # p)"
          using True Cons F2 by (simp add: esc_skip.simps(2))
        then show ?thesis by blast
      next
        case T2: True
        obtain k where k: "esc_skip (csi_body q) = drop k (csi_body q)"
          using "2.IH"(2) [OF True Cons T2] by blast
        obtain j where j: "csi_body q = drop j q"
          using csi_body_suffix by blast
        have "esc_skip (c # p) = drop (Suc (Suc (k + j))) (c # p)"
          using True Cons T2 k j by (simp add: esc_skip.simps(2))
        then show ?thesis by blast
      qed
    qed
  qed
qed

lemma esc_skip_drop: "esc_skip p = drop (skip_len p) p"
proof -
  obtain k where "esc_skip p = drop k p" using esc_skip_suffix by blast
  then show ?thesis unfolding skip_len_def by (rule drop_by_length)
qed

lemma esc_skip_head: "esc_skip p = c # q \<Longrightarrow> c \<noteq> ESC"
proof (induction p rule: esc_skip.induct)
  case 1
  then show ?case by simp
next
  case (2 c' p)
  show ?case
  proof (cases "c' = ESC")
    case False
    with "2.prems" show ?thesis by (simp add: esc_skip.simps(2))
  next
    case True
    show ?thesis
    proof (cases p)
      case Nil
      with True "2.prems" show ?thesis by (simp add: esc_skip.simps(2))
    next
      case (Cons d q')
      show ?thesis
      proof (cases "d = CHR ''[''")
        case F2: False
        with True Cons "2.prems" have "esc_skip p = c # q" by (simp add: esc_skip.simps(2))
        then show ?thesis using "2.IH"(3) [OF True Cons F2] by simp
      next
        case T2: True
        with True Cons "2.prems" have "esc_skip (csi_body q') = c # q" by (simp add: esc_skip.simps(2))
        then show ?thesis using "2.IH"(2) [OF True Cons T2] by simp
      qed
    qed
  qed
qed

lemma esc_skip_idem: "esc_skip (esc_skip p) = esc_skip p"
proof (cases "esc_skip p")
  case Nil
  then show ?thesis by simp
next
  case (Cons c q)
  then have "c \<noteq> ESC" by (rule esc_skip_head)
  with Cons show ?thesis by (simp add: esc_skip.simps(2))
qed


lemma length_tl_esc_skip: "esc_skip p \<noteq> [] \<Longrightarrow> length (tl (esc_skip p)) < length p"
  using length_esc_skip [of p] by (cases "esc_skip p") auto

lemma esc_strlen_loop_acc: "esc_strlen_loop p n = n + esc_strlen_loop p 0"
proof (induction p arbitrary: n rule: length_induct)
  case (1 p)
  show ?case
  proof (cases "esc_skip p = []")
    case True
    then show ?thesis by (simp add: esc_strlen_loop.simps [of p])
  next
    case False
    let ?q = "tl (esc_skip p)"
    have IH: "esc_strlen_loop ?q m = m + esc_strlen_loop ?q 0" for m
      using "1.IH" length_tl_esc_skip [OF False] by blast
    have "esc_strlen_loop p n = esc_strlen_loop ?q (n + 1)"
      using False by (simp add: esc_strlen_loop.simps [of p n])
    moreover have "esc_strlen_loop p 0 = esc_strlen_loop ?q 1"
      using False by (simp add: esc_strlen_loop.simps [of p 0])
    ultimately show ?thesis using IH [of "n + 1"] IH [of 1] by simp
  qed
qed

lemma esc_strlen_step:
  "esc_strlen p = (if esc_skip p = [] then 0 else 1 + esc_strlen (tl (esc_skip p)))"
  unfolding esc_strlen_def
  using esc_strlen_loop_acc [of "tl (esc_skip p)" 1]
  by (simp add: esc_strlen_loop.simps [of p 0])

lemma esc_strlen_nonneg: "0 \<le> esc_strlen p"
proof (induction p rule: length_induct)
  case (1 p)
  show ?case
  proof (cases "esc_skip p = []")
    case True
    then show ?thesis using esc_strlen_step [of p] by simp
  next
    case False
    then have "0 \<le> esc_strlen (tl (esc_skip p))"
      using "1.IH" length_tl_esc_skip by blast
    then show ?thesis using False esc_strlen_step [of p] by simp
  qed
qed

lemma esc_strlen_take:
  assumes "k \<le> length p"
  shows "esc_strlen (take k p) =
    (if k \<le> skip_len p then 0
     else 1 + esc_strlen (take (k - skip_len p - 1) (tl (esc_skip p))))"
proof (cases "k \<le> skip_len p")
  case True
  then have "esc_skip (take k p) = []" by (simp add: esc_skip_take_cut)
  then show ?thesis using True esc_strlen_step [of "take k p"] by simp
next
  case False
  then have ne: "esc_skip p \<noteq> []"
    using assms by (auto simp: skip_len_def)
  then obtain c q where cq: "esc_skip p = c # q" by (cases "esc_skip p") auto
  have "esc_skip (take k p) = take (k - skip_len p) (c # q)"
    using cq by (simp add: esc_skip_take_cut)
  also have "\<dots> = c # take (k - skip_len p - 1) q"
    using False by (cases "k - skip_len p") auto
  finally have "esc_skip (take k p) = c # take (k - skip_len p - 1) q" .
  then show ?thesis using False cq esc_strlen_step [of "take k p"] by simp
qed

lemma esc_rawlen_loop_shift:
  "esc_rawlen_loop s p n l = int (length s) - int (length p) + esc_rawlen_loop p p 0 (l - n)"
proof (induction p arbitrary: s n l rule: length_induct)
  case (1 p)
  show ?case
  proof (cases "n = l \<or> esc_skip p = []")
    case True
    then show ?thesis
      by (auto simp: esc_rawlen_loop.simps [of s p n l] esc_rawlen_loop.simps [of p p 0 "l - n"])
  next
    case False
    let ?q = "tl (esc_skip p)"
    have IH: "esc_rawlen_loop s' ?q n' l' =
        int (length s') - int (length ?q) + esc_rawlen_loop ?q ?q 0 (l' - n')" for s' n' l'
      using "1.IH" length_tl_esc_skip False by blast
    have "esc_rawlen_loop s p n l = esc_rawlen_loop s ?q (n + 1) l"
      using False by (simp add: esc_rawlen_loop.simps [of s p n l])
    moreover have "esc_rawlen_loop p p 0 (l - n) = esc_rawlen_loop p ?q 1 (l - n)"
      using False by (simp add: esc_rawlen_loop.simps [of p p 0 "l - n"])
    ultimately show ?thesis
      using IH [of s "n + 1" l] IH [of p 1 "l - n"] by (simp add: algebra_simps)
  qed
qed

lemma esc_rawlen_step:
  "esc_rawlen p l =
    (if l = 0 \<or> esc_skip p = [] then int (skip_len p)
     else int (skip_len p) + 1 + esc_rawlen (tl (esc_skip p)) (l - 1))"
proof (cases "l = 0 \<or> esc_skip p = []")
  case True
  then show ?thesis
    unfolding esc_rawlen_def using length_esc_skip [of p]
    by (auto simp: esc_rawlen_loop.simps [of p p 0 l] skip_len_def)
next
  case False
  let ?q = "tl (esc_skip p)"
  have "length (esc_skip p) = Suc (length ?q)"
    using False by (cases "esc_skip p") auto
  moreover have "esc_rawlen_loop p p 0 l = esc_rawlen_loop p ?q 1 l"
    using False by (simp add: esc_rawlen_loop.simps [of p p 0 l])
  ultimately show ?thesis
    unfolding esc_rawlen_def
    using False esc_rawlen_loop_shift [of p ?q 1 l] length_esc_skip [of p]
    by (simp add: skip_len_def)
qed

text \<open>
  What \<^verbatim>\<open>esc_rawlen\<close> returns: an offset whose prefix has the requested number of
  printable characters, the largest such offset, with nothing left of an escape
  sequence behind it.
\<close>

lemma esc_rawlen_props:
  "0 \<le> n \<Longrightarrow> n \<le> esc_strlen s \<Longrightarrow>
     0 \<le> esc_rawlen s n \<and> esc_rawlen s n \<le> int (length s) \<and>
     esc_strlen (take (nat (esc_rawlen s n)) s) = n \<and>
     (\<forall>k \<le> length s. esc_strlen (take k s) = n \<longrightarrow> int k \<le> esc_rawlen s n) \<and>
     esc_skip (drop (nat (esc_rawlen s n)) s) = drop (nat (esc_rawlen s n)) s"
proof (induction s arbitrary: n rule: length_induct)
  case (1 s)
  note n0 = \<open>0 \<le> n\<close> and nle = \<open>n \<le> esc_strlen s\<close>
  show ?case
  proof (cases "n = 0")
    case True
    have r: "esc_rawlen s n = int (skip_len s)"
      using True esc_rawlen_step [of s n] by simp
    have a: "esc_strlen (take (skip_len s) s) = 0"
      using esc_strlen_take [of "skip_len s" s] skip_len_le [of s] by simp
    have b: "k \<le> skip_len s" if "k \<le> length s" "esc_strlen (take k s) = 0" for k
    proof (rule ccontr)
      assume "\<not> k \<le> skip_len s"
      then have "esc_strlen (take k s) = 1 + esc_strlen (take (k - skip_len s - 1) (tl (esc_skip s)))"
        using esc_strlen_take [OF that(1)] by simp
      then show False using that(2) esc_strlen_nonneg [of "take (k - skip_len s - 1) (tl (esc_skip s))"]
        by simp
    qed
    have c: "esc_skip (drop (skip_len s) s) = drop (skip_len s) s"
      using esc_skip_idem [of s] by (simp add: esc_skip_drop [symmetric])
    show ?thesis using True r a b c skip_len_le [of s] by simp
  next
    case False
    with n0 have npos: "0 < n" by simp
    have ne: "esc_skip s \<noteq> []"
      using nle npos esc_strlen_step [of s] by (auto split: if_splits)
    let ?q = "tl (esc_skip s)"
    let ?j = "skip_len s"
    have lenq: "length ?q < length s" using ne by (rule length_tl_esc_skip)
    have sq: "esc_strlen s = 1 + esc_strlen ?q"
      using ne esc_strlen_step [of s] by simp
    have IH: "0 \<le> esc_rawlen ?q (n - 1) \<and> esc_rawlen ?q (n - 1) \<le> int (length ?q) \<and>
        esc_strlen (take (nat (esc_rawlen ?q (n - 1))) ?q) = n - 1 \<and>
        (\<forall>k \<le> length ?q. esc_strlen (take k ?q) = n - 1 \<longrightarrow> int k \<le> esc_rawlen ?q (n - 1)) \<and>
        esc_skip (drop (nat (esc_rawlen ?q (n - 1))) ?q) = drop (nat (esc_rawlen ?q (n - 1))) ?q"
    proof -
      have "0 \<le> n - 1" and "n - 1 \<le> esc_strlen ?q" using npos nle sq by simp_all
      then show ?thesis using "1.IH" [rule_format, OF lenq] by blast
    qed
    from IH have IH1: "0 \<le> esc_rawlen ?q (n - 1)"
      and IH2: "esc_rawlen ?q (n - 1) \<le> int (length ?q)"
      and IH3: "esc_strlen (take (nat (esc_rawlen ?q (n - 1))) ?q) = n - 1"
      and IH4: "\<And>k. k \<le> length ?q \<Longrightarrow> esc_strlen (take k ?q) = n - 1
          \<Longrightarrow> int k \<le> esc_rawlen ?q (n - 1)"
      and IH5: "esc_skip (drop (nat (esc_rawlen ?q (n - 1))) ?q)
          = drop (nat (esc_rawlen ?q (n - 1))) ?q"
      by blast+
    let ?r' = "nat (esc_rawlen ?q (n - 1))"
    have r: "esc_rawlen s n = int ?j + 1 + esc_rawlen ?q (n - 1)"
      using False ne esc_rawlen_step [of s n] by simp
    have lens: "length s = ?j + 1 + length ?q"
      using ne length_esc_skip [of s] by (cases "esc_skip s") (auto simp: skip_len_def)
    have qdrop: "?q = drop (Suc ?j) s"
      by (subst esc_skip_drop) (simp only: drop_Suc tl_drop)
    have nat_r: "nat (esc_rawlen s n) = ?j + 1 + ?r'"
      using r IH1 by arith
    have a: "0 \<le> esc_rawlen s n \<and> esc_rawlen s n \<le> int (length s)"
      using r IH1 IH2 lens by arith
    have b: "esc_strlen (take (nat (esc_rawlen s n)) s) = n"
    proof -
      have "nat (esc_rawlen s n) \<le> length s" using a by arith
      then have "esc_strlen (take (nat (esc_rawlen s n)) s) = 1 + esc_strlen (take ?r' ?q)"
        using esc_strlen_take [of "nat (esc_rawlen s n)" s] nat_r by simp
      then show ?thesis using IH3 by simp
    qed
    have c: "int k \<le> esc_rawlen s n" if "k \<le> length s" "esc_strlen (take k s) = n" for k
    proof -
      have gt: "\<not> k \<le> ?j"
        using esc_strlen_take [OF that(1)] that(2) npos by (auto split: if_splits)
      then have "esc_strlen (take (k - ?j - 1) ?q) = n - 1"
        using esc_strlen_take [OF that(1)] that(2) by simp
      moreover have "k - ?j - 1 \<le> length ?q" using that(1) lens by simp
      ultimately have "int (k - ?j - 1) \<le> esc_rawlen ?q (n - 1)" using IH4 by blast
      then show ?thesis using r gt by arith
    qed
    have d: "esc_skip (drop (nat (esc_rawlen s n)) s) = drop (nat (esc_rawlen s n)) s"
    proof -
      have "drop (nat (esc_rawlen s n)) s = drop ?r' ?q"
        using nat_r qdrop by (simp add: add.commute)
      then show ?thesis using IH5 by simp
    qed
    show ?thesis using a b c d by blast
  qed
qed

subsection \<open>Appending to a string\<close>

lemma not_ESC_param: "\<not> is_param ESC"
  by (simp add: is_param_def ESC_def)

lemma not_ESC_interm: "\<not> is_interm ESC"
  by (simp add: is_interm_def ESC_def)

lemma not_ESC_final: "\<not> is_final ESC"
  by (simp add: is_final_def ESC_def)

lemma dropWhile_append_stop:
  "\<not> P x \<Longrightarrow> dropWhile P (q @ x # b) = dropWhile P q @ x # b"
  by (induction q) simp_all

lemma final_byte_append_ESC: "final_byte (r @ ESC # b) = final_byte r @ ESC # b"
  by (cases r) (simp_all add: not_ESC_final)

text \<open>
  The escape character is never part of the body of a CSI sequence, so an escape
  character that follows starts a sequence of its own.
\<close>

lemma csi_body_append_ESC: "csi_body (q @ ESC # b) = csi_body q @ ESC # b"
  by (simp add: csi_body_def dropWhile_append_stop not_ESC_param not_ESC_interm
      final_byte_append_ESC)

lemma esc_skip_append_ESC:
  "esc_skip (u @ ESC # b) =
     (if esc_skip u = [] then esc_skip (ESC # b) else esc_skip u @ ESC # b)"
proof (induction u rule: esc_skip.induct)
  case 1
  show ?case by simp
next
  case (2 c p)
  show ?case
  proof (cases "c = ESC")
    case False
    then show ?thesis by (simp add: esc_skip.simps(2))
  next
    case True
    show ?thesis
    proof (cases p)
      case Nil
      with True show ?thesis by (simp add: esc_skip.simps(2) ESC_def)
    next
      case (Cons d q)
      show ?thesis
      proof (cases "d = CHR ''[''")
        case F2: False
        have "esc_skip (p @ ESC # b) =
            (if esc_skip p = [] then esc_skip (ESC # b) else esc_skip p @ ESC # b)"
          using "2.IH"(3) [OF True Cons F2] .
        then show ?thesis using True Cons F2 by (simp add: esc_skip.simps(2))
      next
        case T2: True
        have "esc_skip (csi_body q @ ESC # b) =
            (if esc_skip (csi_body q) = [] then esc_skip (ESC # b)
             else esc_skip (csi_body q) @ ESC # b)"
          using "2.IH"(2) [OF True Cons T2] .
        then show ?thesis
          using True Cons T2 by (simp add: esc_skip.simps(2) csi_body_append_ESC)
      qed
    qed
  qed
qed

lemma esc_strlen_of_skip: "esc_skip p = esc_skip p' \<Longrightarrow> esc_strlen p = esc_strlen p'"
  using esc_strlen_step [of p] esc_strlen_step [of p'] by simp

lemma esc_strlen_append_ESC:
  "esc_strlen (a @ ESC # b) = esc_strlen a + esc_strlen (ESC # b)"
proof (induction a rule: length_induct)
  case (1 a)
  show ?case
  proof (cases "esc_skip a")
    case Nil
    then have "esc_skip (a @ ESC # b) = esc_skip (ESC # b)"
      by (simp add: esc_skip_append_ESC)
    then have "esc_strlen (a @ ESC # b) = esc_strlen (ESC # b)" by (rule esc_strlen_of_skip)
    moreover have "esc_strlen a = 0" using Nil esc_strlen_step [of a] by simp
    ultimately show ?thesis by simp
  next
    case (Cons c q)
    then have ne: "esc_skip a \<noteq> []" by simp
    have "length q < length a" using length_tl_esc_skip [OF ne] Cons by simp
    then have IH: "esc_strlen (q @ ESC # b) = esc_strlen q + esc_strlen (ESC # b)"
      using "1.IH" by blast
    have "esc_skip (a @ ESC # b) = c # q @ ESC # b"
      using Cons by (simp add: esc_skip_append_ESC)
    then have "esc_strlen (a @ ESC # b) = 1 + esc_strlen (q @ ESC # b)"
      using esc_strlen_step [of "a @ ESC # b"] by simp
    moreover have "esc_strlen a = 1 + esc_strlen q"
      using Cons esc_strlen_step [of a] by simp
    ultimately show ?thesis using IH by simp
  qed
qed

lemma esc_strlen_Nil: "esc_strlen [] = 0"
  using esc_strlen_step [of "[]"] by simp

text \<open>One more byte is at most one more printable character.\<close>

lemma esc_strlen_take_Suc:
  "Suc k \<le> length t \<Longrightarrow> esc_strlen (take (Suc k) t) \<le> esc_strlen (take k t) + 1"
proof (induction t arbitrary: k rule: length_induct)
  case (1 t)
  let ?j = "skip_len t"
  let ?q = "tl (esc_skip t)"
  have k: "k \<le> length t" using "1.prems" by simp
  note a = esc_strlen_take [OF k] and b = esc_strlen_take [OF "1.prems"]
  show ?case
  proof (cases "Suc k \<le> ?j")
    case True
    then show ?thesis using a b by simp
  next
    case False
    then have ne: "esc_skip t \<noteq> []" using "1.prems" by (auto simp: skip_len_def)
    have lens: "length t = ?j + 1 + length ?q"
      using ne length_esc_skip [of t] by (cases "esc_skip t") (auto simp: skip_len_def)
    show ?thesis
    proof (cases "k \<le> ?j")
      case True
      then have "k = ?j" using False by simp
      then show ?thesis using a b by (simp add: esc_strlen_Nil)
    next
      case F2: False
      have "length ?q < length t" using ne by (rule length_tl_esc_skip)
      moreover have "Suc (k - ?j - 1) \<le> length ?q" using F2 "1.prems" lens by simp
      ultimately have "esc_strlen (take (Suc (k - ?j - 1)) ?q) \<le> esc_strlen (take (k - ?j - 1) ?q) + 1"
        using "1.IH" by blast
      moreover have "Suc (k - ?j - 1) = Suc k - ?j - 1" using F2 by simp
      ultimately show ?thesis using a b F2 False by simp
    qed
  qed
qed

lemma esc_strlen_snoc: "esc_strlen (a @ [c]) \<le> esc_strlen a + 1"
  using esc_strlen_take_Suc [of "length a" "a @ [c]"] by simp

lemma esc_strlen_append_le: "esc_strlen (a @ u) \<le> esc_strlen a + int (length u)"
proof (induction u arbitrary: a)
  case Nil
  show ?case by simp
next
  case (Cons x u)
  have "esc_strlen ((a @ [x]) @ u) \<le> esc_strlen (a @ [x]) + int (length u)" by (rule Cons.IH)
  then show ?case using esc_strlen_snoc [of a x] by simp
qed

lemma is_param_digit_char: "d < 10 \<Longrightarrow> is_param (digit_char d)"
  by (simp add: is_param_def digit_char_def)

lemma dec_nat_params: "\<forall>c \<in> set (dec_nat n). is_param c"
proof (induction n rule: dec_nat.induct)
  case (1 n)
  show ?case
  proof (cases "n < 10")
    case True
    then show ?thesis by (simp add: dec_nat.simps [of n] is_param_digit_char)
  next
    case False
    then show ?thesis using 1 by (simp add: dec_nat.simps [of n] is_param_digit_char)
  qed
qed

text \<open>The sequence that parks the cursor has no printable character.\<close>

lemma esc_strlen_park: "0 \<le> w \<Longrightarrow> esc_strlen (ESC # ''['' @ printf_d w @ ''G'') = 0"
proof -
  assume w: "0 \<le> w"
  have "dropWhile is_param (dec_nat (nat w) @ ''G'') = ''G''"
    using dec_nat_params [of "nat w"] by (simp add: is_param_def)
  then have "csi_body (printf_d w @ ''G'') = []"
    using w by (simp add: csi_body_def printf_d_def is_interm_def is_final_def)
  then have "esc_skip (ESC # ''['' @ printf_d w @ ''G'') = []"
    by (simp add: esc_skip.simps(2))
  then show ?thesis using esc_strlen_step [of "ESC # ''['' @ printf_d w @ ''G''"] by simp
qed

lemma esc_strlen_reset: "esc_strlen (ESC # ''[0m'') = 0"
  by code_simp

text \<open>
  Claim C4. For every string \<open>s\<close> and every \<open>n\<close> from 0 to the printable length of
  \<open>s\<close>, \<^verbatim>\<open>esc_rawlen(s, n)\<close> is an offset into \<open>s\<close> whose prefix has exactly \<open>n\<close>
  printable characters, and it is the largest such offset: every offset \<open>k\<close> whose
  prefix has exactly \<open>n\<close> printable characters is at most \<^verbatim>\<open>esc_rawlen(s, n)\<close>. The
  escape sequences that follow the \<open>n\<close>-th printable character are inside the returned
  length: what remains of \<open>s\<close> after it does not start with an escape sequence
  (\<^verbatim>\<open>esc_skip\<close> leaves it as it is).
\<close>

theorem esc_rawlen_maximal:
  "0 \<le> n \<Longrightarrow> n \<le> esc_strlen s \<Longrightarrow>
     0 \<le> esc_rawlen s n \<and> esc_rawlen s n \<le> int (length s) \<and>
     esc_strlen (take (nat (esc_rawlen s n)) s) = n \<and>
     (\<forall>k \<le> length s. esc_strlen (take k s) = n \<longrightarrow> int k \<le> esc_rawlen s n) \<and>
     esc_skip (drop (nat (esc_rawlen s n)) s) = drop (nat (esc_rawlen s n)) s"
  by (rule esc_rawlen_props)

theorem esc_rawlen_maximal_witness:
  "(0::int) \<le> 3 \<and> 3 \<le> esc_strlen (''abc'' @ ESC # ''[7mfgh'') \<and>
   esc_rawlen (''abc'' @ ESC # ''[7mfgh'') 3 = 7 \<and>
   esc_strlen (take 7 (''abc'' @ ESC # ''[7mfgh'')) = 3 \<and>
   esc_strlen (take 8 (''abc'' @ ESC # ''[7mfgh'')) \<noteq> 3 \<and>
   esc_skip (drop 7 (''abc'' @ ESC # ''[7mfgh'')) = drop 7 (''abc'' @ ESC # ''[7mfgh'')"
proof -
  let ?s = "''abc'' @ ESC # ''[7mfgh''"
  have h1: "(0::int) \<le> 3" by simp
  have h2: "3 \<le> esc_strlen ?s" by code_simp
  have v: "esc_rawlen ?s 3 = 7" by code_simp
  have len: "(8::nat) \<le> length ?s" by simp
  note m = esc_rawlen_maximal [OF h1 h2]
  have a: "esc_strlen (take 7 ?s) = 3" using m v by simp
  have b: "esc_strlen (take 8 ?s) \<noteq> 3"
  proof
    assume "esc_strlen (take 8 ?s) = 3"
    with m len have "int 8 \<le> esc_rawlen ?s 3" by blast
    with v show False by simp
  qed
  have c: "esc_skip (drop 7 ?s) = drop 7 ?s" using m v by simp
  show ?thesis using h1 h2 v a b c by blast
qed

section \<open>Properties of the sampling engine\<close>

text \<open>
  The rule of step 4 of the slow path, in the specification's words: publish if the time
  since the last published snapshot exceeds 0.8 times the update interval, or the merged
  global count equals this worker's delta, or this worker has reached its own total.
\<close>

definition spec_publish :: "timespec \<Rightarrow> thread_state \<Rightarrow> state \<Rightarrow> bool" where
  "spec_publish clk th st =
     (let delta = t_count th - t_last_count th;
          now = timef (g_start st) clk
      in fgreater (fsub now (g_last_time st)) (fmul (Fin (8 / 10)) (p_update st))
         \<or> g_count st + delta = delta
         \<or> t_count th = t_total th)"

text \<open>A worked run, for the examples below: an update interval of 4 seconds, a main
  thread without work of its own and two workers with 10 units each, on a clock that
  is read at whole seconds.\<close>

definition clock_at :: "long \<Rightarrow> timespec" where
  "clock_at s = \<lparr>tv_sec = s, tv_nsec = 0\<rparr>"

definition config0 :: state where
  "config0 =
     \<lparr>p_output = None, p_update = Fin 4, p_lock_on_update = False, p_width = 0,
      p_progress = Fin 0, p_elapsed = Fin 0, p_remaining = Fin 0, p_rate = Fin 0,
      p_mean_rate = Fin 0, g_start = clock_at 0, g_lock = False, g_total = 0, g_count = 0,
      g_last_count = 0, g_last_time = Fin 0, g_width = 0, g_printed_lines = 0,
      g_expand_count = 0, bar_fill0 = CHR ''#'', bar_fill1 = CHR ''.'', bar_txt = [],
      bar_expand = False, written = []\<rparr>"

definition run_main :: "thread_state \<times> state" where
  "run_main = prgi_init 0 (clock_at 100) config0"

definition run_a0 :: "thread_state \<times> state" where
  "run_a0 = prgi_init_thread 10 (snd run_main)"

definition run_a1 :: "bool \<times> thread_state \<times> state" where
  "run_a1 = prgi_update (clock_at 101) 80 1 (fst run_a0) (snd run_a0)"

definition run_b0 :: "thread_state \<times> state" where
  "run_b0 = prgi_init_thread 10 (snd (snd run_a1))"

definition run_b1 :: "bool \<times> thread_state \<times> state" where
  "run_b1 = prgi_update (clock_at 102) 80 1 (fst run_b0) (snd run_b0)"




lemma slow_flag: "fst (prgi_update_slow clk tw th st) = spec_publish clk th st"
  by (simp add: prgi_update_slow_def spec_publish_def Let_def prgi_lock_def prgi_unlock_def)

lemma slow_thread:
  "fst (snd (prgi_update_slow clk tw th st)) =
     th\<lparr>t_mark :=
          (let mark = f2l (fadd (l2f (t_mark th))
                 (fdiv (fmul (p_update st) (l2f (t_count th - t_last_count th)))
                       (fsub (timef (g_start st) clk) (t_last_time th))))
           in if sint (t_count th) < sint (t_total th) \<and> sint (t_total th) < sint mark
              then t_total th else mark),
        t_last_count := t_count th,
        t_last_time := timef (g_start st) clk\<rparr>"
  by (simp add: prgi_update_slow_def Let_def prgi_lock_def prgi_unlock_def)

lemma slow_no_publish:
  assumes "\<not> spec_publish clk th st"
  shows "snd (snd (prgi_update_slow clk tw th st)) =
       st\<lparr>g_lock := False, g_count := g_count st + (t_count th - t_last_count th)\<rparr>"
  using assms
  by (simp add: prgi_update_slow_def spec_publish_def Let_def prgi_lock_def prgi_unlock_def)

lemma slow_total: "t_total (fst (snd (prgi_update_slow clk tw th st))) = t_total th"
  by (simp add: slow_thread)

lemma slow_count: "t_count (fst (snd (prgi_update_slow clk tw th st))) = t_count th"
  by (simp add: slow_thread)

lemma slow_mark_clamped:
  "sint (t_count th) < sint (t_total th) \<Longrightarrow>
     sint (t_mark (fst (snd (prgi_update_slow clk tw th st)))) \<le> sint (t_total th)"
  by (simp add: slow_thread Let_def)

lemma update_fast:
  "sint (t_count th + inc) < sint (t_mark th) \<Longrightarrow>
     prgi_update clk tw inc th st = (False, th\<lparr>t_count := t_count th + inc\<rparr>, st)"
  by (simp add: prgi_update_def Let_def)

lemma update_slow:
  "sint (t_mark th) \<le> sint (t_count th + inc) \<Longrightarrow>
     prgi_update clk tw inc th st = prgi_update_slow clk tw (th\<lparr>t_count := t_count th + inc\<rparr>) st"
  by (simp add: prgi_update_def Let_def)


lemma update_count: "t_count (fst (snd (prgi_update clk tw inc th st))) = t_count th + inc"
  by (cases "sint (t_mark th) \<le> sint (t_count th + inc)")
     (simp_all add: update_slow update_fast slow_count)

lemma update_reaching_total:
  assumes "sint (t_mark th) \<le> sint (t_total th)" and "t_count th + inc = t_total th"
  shows "fst (prgi_update clk tw inc th st)"
proof -
  have "prgi_update clk tw inc th st =
      prgi_update_slow clk tw (th\<lparr>t_count := t_count th + inc\<rparr>) st"
    using assms by (simp add: update_slow)
  moreover have "spec_publish clk (th\<lparr>t_count := t_count th + inc\<rparr>) st"
    using assms(2) by (simp add: spec_publish_def Let_def)
  ultimately show ?thesis by (simp add: slow_flag)
qed






text \<open>
  Claim C3. After the mark re-estimation of \<^verbatim>\<open>prgi_update__\<close>, run with a positive
  interval since the worker's last synchronization, a worker whose count is below its
  total has a mark that does not exceed its total. So the call of \<^verbatim>\<open>prgi_update\<close> that
  brings the count to the total takes the slow path and returns true, whatever the
  clock, the terminal and the shared state are then.
\<close>

theorem mark_clamped_at_total:
  assumes "fgreater (fsub (timef (g_start st) clk) (t_last_time th)) (Fin 0)"
    and "sint (t_count th) < sint (t_total th)"
  shows "sint (t_mark (fst (snd (prgi_update_slow clk tw th st)))) \<le> sint (t_total th) \<and>
     (\<forall>clk' tw' st' inc. t_count th + inc = t_total th \<longrightarrow>
        fst (prgi_update clk' tw' inc (fst (snd (prgi_update_slow clk tw th st))) st'))"
proof -
  let ?th' = "fst (snd (prgi_update_slow clk tw th st))"
  have m: "sint (t_mark ?th') \<le> sint (t_total ?th')"
    using assms(2) by (simp add: slow_mark_clamped slow_total)
  have "fst (prgi_update clk' tw' inc ?th' st')" if "t_count th + inc = t_total th"
    for clk' tw' st' inc
    using m that by (intro update_reaching_total) (simp_all add: slow_count slow_total)
  then show ?thesis using m by (simp add: slow_total)
qed


theorem mark_clamped_at_total_witness:
  "fgreater (fsub (timef (g_start (snd run_a0)) (clock_at 101))
                  (t_last_time ((fst run_a0)\<lparr>t_count := 5\<rparr>))) (Fin 0) \<and>
   sint (t_count ((fst run_a0)\<lparr>t_count := 5\<rparr>)) < sint (t_total ((fst run_a0)\<lparr>t_count := 5\<rparr>)) \<and>
   t_mark (fst (snd (prgi_update_slow (clock_at 101) 80 ((fst run_a0)\<lparr>t_count := 5\<rparr>) (snd run_a0)))) = 10 \<and>
   sint (t_mark (fst (snd (prgi_update_slow (clock_at 101) 80 ((fst run_a0)\<lparr>t_count := 5\<rparr>) (snd run_a0)))))
     \<le> sint (t_total ((fst run_a0)\<lparr>t_count := 5\<rparr>)) \<and>
   fst (prgi_update (clock_at 101) 80 5
          (fst (snd (prgi_update_slow (clock_at 101) 80 ((fst run_a0)\<lparr>t_count := 5\<rparr>) (snd run_a0))))
          (snd (snd (prgi_update_slow (clock_at 101) 80 ((fst run_a0)\<lparr>t_count := 5\<rparr>) (snd run_a0)))))"
proof -
  let ?th = "(fst run_a0)\<lparr>t_count := 5\<rparr>"
  let ?r = "prgi_update_slow (clock_at 101) 80 ?th (snd run_a0)"
  have h1: "fgreater (fsub (timef (g_start (snd run_a0)) (clock_at 101)) (t_last_time ?th)) (Fin 0)"
    by code_simp
  have h2: "sint (t_count ?th) < sint (t_total ?th)" by code_simp
  have v: "t_mark (fst (snd ?r)) = 10" by code_simp
  have e: "t_count ?th + 5 = t_total ?th" by code_simp
  note m = mark_clamped_at_total [OF h1 h2, of 80]
  from m have a: "sint (t_mark (fst (snd ?r))) \<le> sint (t_total ?th)" by blast
  from m e have b: "fst (prgi_update (clock_at 101) 80 5 (fst (snd ?r)) (snd (snd ?r)))" by blast
  show ?thesis using h1 h2 v a b by blast
qed

text \<open>
  Claim C8. When \<^verbatim>\<open>prgi_update__\<close> decides not to publish (none of the three conditions
  of the publish rule holds), it returns false, the six snapshot fields of \<^verbatim>\<open>prgi\<close>
  keep their values, nothing is written to the output and the count of printed lines
  stays (no line is erased). The whole state changes in two places only: the merged
  global count and the released lock.
\<close>

theorem no_publish_frame:
  assumes "\<not> spec_publish clk th st"
  shows "fst (prgi_update_slow clk tw th st) = False \<and>
    p_progress (snd (snd (prgi_update_slow clk tw th st))) = p_progress st \<and>
    p_elapsed (snd (snd (prgi_update_slow clk tw th st))) = p_elapsed st \<and>
    p_remaining (snd (snd (prgi_update_slow clk tw th st))) = p_remaining st \<and>
    p_rate (snd (snd (prgi_update_slow clk tw th st))) = p_rate st \<and>
    p_mean_rate (snd (snd (prgi_update_slow clk tw th st))) = p_mean_rate st \<and>
    p_width (snd (snd (prgi_update_slow clk tw th st))) = p_width st \<and>
    written (snd (snd (prgi_update_slow clk tw th st))) = written st \<and>
    g_printed_lines (snd (snd (prgi_update_slow clk tw th st))) = g_printed_lines st \<and>
    snd (snd (prgi_update_slow clk tw th st)) =
      st\<lparr>g_lock := False, g_count := g_count st + (t_count th - t_last_count th)\<rparr>"
proof -
  have "fst (prgi_update_slow clk tw th st) = False"
    using assms by (simp add: slow_flag)
  then show ?thesis
    by (simp add: slow_no_publish [OF assms])
qed

theorem no_publish_frame_witness:
  "\<not> spec_publish (clock_at 102) ((fst run_b0)\<lparr>t_count := 1\<rparr>) (snd run_b0) \<and>
   \<not> fst (prgi_update_slow (clock_at 102) 80 ((fst run_b0)\<lparr>t_count := 1\<rparr>) (snd run_b0)) \<and>
   p_elapsed (snd (snd (prgi_update_slow (clock_at 102) 80 ((fst run_b0)\<lparr>t_count := 1\<rparr>) (snd run_b0))))
     = Fin 1 \<and>
   p_width (snd (snd (prgi_update_slow (clock_at 102) 80 ((fst run_b0)\<lparr>t_count := 1\<rparr>) (snd run_b0))))
     = 80 \<and>
   written (snd (snd (prgi_update_slow (clock_at 102) 80 ((fst run_b0)\<lparr>t_count := 1\<rparr>) (snd run_b0))))
     = []"
proof -
  let ?th = "(fst run_b0)\<lparr>t_count := 1\<rparr>"
  have h: "\<not> spec_publish (clock_at 102) ?th (snd run_b0)" by code_simp
  have e: "p_elapsed (snd run_b0) = Fin 1" by code_simp
  have w: "p_width (snd run_b0) = 80" by code_simp
  have o: "written (snd run_b0) = []" by code_simp
  show ?thesis
    using h e w o no_publish_frame [OF h, of 80] by simp
qed

subsection \<open>The first call and the call that completes a worker\<close>














subsection \<open>Before the first publish\<close>

text \<open>
  The calls that can come between \<^verbatim>\<open>prgi_init\<close> and the first publish: a worker
  registers, or some thread, in whatever state its own counter is, records an
  increment. \<open>calls_before_publish\<close> runs such calls on the shared state and gives the
  state they leave, as long as none of them publishes.
\<close>

datatype call = Init_thread long | Update timespec int long thread_state

fun calls_before_publish :: "call list \<Rightarrow> state \<Rightarrow> state option" where
  "calls_before_publish [] st = Some st"
| "calls_before_publish (Init_thread tot # cs) st =
     calls_before_publish cs (snd (prgi_init_thread tot st))"
| "calls_before_publish (Update clk tw inc th # cs) st =
     (if fst (prgi_update clk tw inc th st) then None
      else calls_before_publish cs (snd (snd (prgi_update clk tw inc th st))))"

definition unknown_snapshot :: "state \<Rightarrow> bool" where
  "unknown_snapshot st =
     (p_remaining st = NaN \<and> p_rate st = NaN \<and> p_mean_rate st = NaN \<and> p_width st = - 1)"

lemma unknown_snapshot_init: "unknown_snapshot (snd (prgi_init tot clk st))"
  by (simp add: unknown_snapshot_def prgi_init_def prgi_init_thread_def prgi_lock_def
      prgi_unlock_def)

lemma unknown_snapshot_init_thread:
  "unknown_snapshot st \<Longrightarrow> unknown_snapshot (snd (prgi_init_thread tot st))"
  by (simp add: unknown_snapshot_def prgi_init_thread_def prgi_lock_def prgi_unlock_def)

lemma unknown_snapshot_update:
  assumes "unknown_snapshot st" and "\<not> fst (prgi_update clk tw inc th st)"
  shows "unknown_snapshot (snd (snd (prgi_update clk tw inc th st)))"
proof (cases "sint (t_mark th) \<le> sint (t_count th + inc)")
  case True
  let ?th1 = "th\<lparr>t_count := t_count th + inc\<rparr>"
  have eq: "prgi_update clk tw inc th st = prgi_update_slow clk tw ?th1 st"
    using True by (rule update_slow)
  then have "\<not> spec_publish clk ?th1 st"
    using assms(2) by (simp add: slow_flag)
  then show ?thesis
    using assms(1) by (simp add: eq slow_no_publish unknown_snapshot_def)
next
  case False
  then show ?thesis using assms(1) by (simp add: update_fast)
qed

lemma unknown_snapshot_calls:
  "unknown_snapshot st \<Longrightarrow> calls_before_publish cs st = Some st' \<Longrightarrow> unknown_snapshot st'"
proof (induction cs st rule: calls_before_publish.induct)
  case (1 st)
  then show ?case by simp
next
  case (2 tot cs st)
  then show ?case by (simp add: unknown_snapshot_init_thread)
next
  case (3 clk tw inc th cs st)
  then show ?case by (simp add: unknown_snapshot_update split: if_splits)
qed

lemma timehms_NaN: "timehms sz NaN = sprn sz ''?''"
  by (simp add: timehms_def)

lemma sipref_NaN: "sipref sz NaN = sprn sz ''?''"
  by (simp add: sipref_def)

text \<open>
  Claim C10. From \<^verbatim>\<open>prgi_init\<close> until the first publish, the fields \<^verbatim>\<open>remaining\<close>,
  \<^verbatim>\<open>rate\<close> and \<^verbatim>\<open>mean_rate\<close> of \<^verbatim>\<open>prgi\<close> are NaN and \<^verbatim>\<open>width\<close> is -1, so
  \<^verbatim>\<open>prgi_remaining\<close>, \<^verbatim>\<open>prgi_rate\<close> and \<^verbatim>\<open>prgi_mean_rate\<close> each return \<^verbatim>\<open>"?"\<close>.
\<close>

theorem unknown_before_first_publish:
  assumes "calls_before_publish cs (snd (prgi_init tot clk st0)) = Some st"
  shows "p_remaining st = NaN \<and> p_rate st = NaN \<and> p_mean_rate st = NaN \<and> p_width st = - 1 \<and>
    prgi_remaining st = ''?'' \<and> prgi_rate st = ''?'' \<and> prgi_mean_rate st = ''?''"
proof -
  have "unknown_snapshot st"
    using unknown_snapshot_init assms by (rule unknown_snapshot_calls)
  then show ?thesis
    by (simp add: unknown_snapshot_def prgi_remaining_def prgi_rate_def prgi_mean_rate_def
        timehms_NaN sipref_NaN sprn_def)
qed

theorem unknown_before_first_publish_witness:
  "calls_before_publish
     [Init_thread 10, Update (clock_at 101) 80 (- 1) (fst run_a0)]
     (snd (prgi_init 0 (clock_at 100) config0))
   = Some (snd run_a0) \<and>
   p_remaining (snd run_a0) = NaN \<and> p_width (snd run_a0) = - 1 \<and>
   prgi_remaining (snd run_a0) = ''?'' \<and> prgi_rate (snd run_a0) = ''?'' \<and>
   prgi_mean_rate (snd run_a0) = ''?''"
proof -
  have h: "calls_before_publish
     [Init_thread 10, Update (clock_at 101) 80 (- 1) (fst run_a0)]
     (snd (prgi_init 0 (clock_at 100) config0)) = Some (snd run_a0)"
    by code_simp
  show ?thesis using h unknown_before_first_publish [OF h] by blast
qed

section \<open>Properties of the renderer\<close>

lemma prgi_clear_frame:
  "p_width (prgi_clear st) = p_width st"
  "g_width (prgi_clear st) = g_width st"
  "p_lock_on_update (prgi_clear st) = p_lock_on_update st"
  by (simp_all add: prgi_clear_def)

text \<open>On every publish the two widths are set from the reported terminal width.\<close>

lemma publish_sets_widths:
  assumes "fst (prgi_update_slow clk tw th st)"
  shows "p_width (snd (snd (prgi_update_slow clk tw th st))) = tw \<and>
    g_width (snd (snd (prgi_update_slow clk tw th st))) =
      (if MAXLINELEN + 2 \<le> tw then MAXLINELEN else tw - 2)"
proof -
  have c: "spec_publish clk th st" using assms by (simp add: slow_flag)
  show ?thesis
    using c
    by (auto simp: prgi_update_slow_def spec_publish_def Let_def prgi_lock_def prgi_unlock_def
        prgi_clear_frame)
qed

text \<open>
  On a terminal of at least 5 columns a line printed by \<^verbatim>\<open>prgi_puts\<close> has at most as
  many printable characters as the rendering width, which a publish sets to the
  terminal width minus 2, or to \<open>MAXLINELEN\<close> on a terminal of 258 columns or more.
\<close>

lemma puts_line_fits:
  assumes "5 \<le> p_width st"
    and "g_width st = (if MAXLINELEN + 2 \<le> p_width st then MAXLINELEN else p_width st - 2)"
  shows "esc_strlen (puts_line s st) \<le> g_width st"
proof -
  let ?park = "ESC # ''['' @ printf_d (p_width st) @ ''G''"
  have gw: "3 \<le> g_width st" using assms by (simp add: MAXLINELEN_def split: if_splits)
  have park: "esc_strlen ?park = 0" using assms(1) by (intro esc_strlen_park) simp
  show ?thesis
  proof (cases "esc_strlen s \<le> g_width st")
    case True
    have "puts_line s st = s @ ESC # (''['' @ printf_d (p_width st) @ ''G'')"
      using True by (simp add: puts_line_def)
    then have "esc_strlen (puts_line s st) = esc_strlen s + esc_strlen ?park"
      by (simp add: esc_strlen_append_ESC)
    then show ?thesis using True park by simp
  next
    case False
    let ?n = "g_width st - 3"
    let ?r = "esc_rawlen s ?n"
    let ?pre = "printf_prec_s ?r s"
    have n0: "0 \<le> ?n" and nle: "?n \<le> esc_strlen s" using gw False by simp_all
    note m = esc_rawlen_props [OF n0 nle]
    have pre: "esc_strlen ?pre = ?n"
      using m by (simp add: printf_prec_s_def)
    have "puts_line s st = (?pre @ ''>>>'') @ ESC # (''[0m'' @ ?park)"
      using False by (simp add: puts_line_def)
    then have "esc_strlen (puts_line s st) =
        esc_strlen (?pre @ ''>>>'') + esc_strlen (ESC # (''[0m'' @ ?park))"
      by (simp only: esc_strlen_append_ESC)
    moreover have "esc_strlen (ESC # (''[0m'' @ ?park)) = 0"
      using esc_strlen_append_ESC [of "ESC # ''[0m''" "''['' @ printf_d (p_width st) @ ''G''"]
        esc_strlen_reset park by simp
    moreover have "esc_strlen (?pre @ ''>>>'') \<le> esc_strlen ?pre + 3"
      using esc_strlen_append_le [of ?pre "''>>>''"] by simp
    ultimately show ?thesis using pre by simp
  qed
qed

text \<open>
  Worker A's first update in the run above, on a terminal that is 4 columns wide.
\<close>

definition run_narrow :: "bool \<times> thread_state \<times> state" where
  "run_narrow = prgi_update (clock_at 101) 4 1 (fst run_a0) (snd run_a0)"

text \<open>
  Claim C9 at a terminal of 4 columns, which \<^verbatim>\<open>valid_terminal\<close> accepts as it accepts
  every width from 3 on. The publish sets the terminal width to 4 and the rendering
  width to 2. \<^verbatim>\<open>prgi_puts("abc")\<close> then finds three printable characters,
  more than the rendering width, and asks \<^verbatim>\<open>esc_rawlen\<close> for the raw length of -1
  printable characters, which is the whole string: it prints \<^verbatim>\<open>abc>>>\<close>, six printable
  characters on a line whose limit the claim gives as 2.
\<close>

theorem puts_on_narrow_terminal:
  "fst run_narrow \<and>
   p_width (snd (snd run_narrow)) = 4 \<and>
   g_width (snd (snd run_narrow)) = 2 \<and>
   valid_terminal (snd (snd run_narrow)) \<and>
   esc_rawlen ''abc'' (g_width (snd (snd run_narrow)) - 3) = 3 \<and>
   written (prgi_puts ''abc'' (snd (snd run_narrow))) =
     ''abc>>>'' @ ESC # ''[0m'' @ ESC # ''[4G'' \<and>
   esc_strlen (written (prgi_puts ''abc'' (snd (snd run_narrow)))) = 6"
  by code_simp

theorem puts_on_narrow_terminal_witness:
  "p_width (snd (snd run_narrow)) = 4 \<and>
   esc_strlen (written (prgi_puts ''abc'' (snd (snd run_narrow)))) = 6"
  using puts_on_narrow_terminal by blast

section \<open>Properties of the formatters\<close>

subsection \<open>Time intervals\<close>

text \<open>
  Claim C6 at a duration of one day and one hour (90000 seconds). The branch for days
  and hours prints with the format \<^verbatim>\<open>"%dd%d02h"\<close>: the hours are not padded, and the
  characters \<^verbatim>\<open>02\<close> follow them. The other branches print as the claim says.
\<close>

theorem timehms_days_and_hours:
  "timehms 32 (Fin 90000) = ''1d102h'' \<and>
   timehms 32 (Fin 61) = ''1m01s'' \<and>
   timehms 32 (Fin 3661) = ''1h01m'' \<and>
   timehms 32 (Fin 59) = ''59s'' \<and>
   timehms 32 (Fin 700000) = ''7.00E+05s'' \<and>
   timehms 32 (Fin (- 1)) = ''?'' \<and>
   timehms 32 NaN = ''?'' \<and>
   timehms 32 PInf = ''?''"
  by code_simp

theorem timehms_days_and_hours_witness:
  "timehms 32 (Fin 90000) = ''1d102h''"
  using timehms_days_and_hours by blast

subsection \<open>Rates with SI prefixes\<close>


lemma sipref_loop_entry:
  "sipref sz (Fin x) = sipref_loop sz x pw" if "1000 \<le> x"
  using that by (simp add: sipref_def)


lemma sipref_beyond: "10 ^ 30 \<le> x \<Longrightarrow> sipref sz (Fin x) = sprn sz (printf_G 2 x)"
proof -
  assume a: "10 ^ 30 \<le> x"
  then have x: "1000 \<le> x" by simp
  show ?thesis using a by (simp add: sipref_loop_entry [OF x] pw_def)
qed































section \<open>Properties of the bar renderer\<close>















end
